theory Spec2Isabelle
  imports Main "HOL-Library.Multiset" "HOL-Library.AList" "HOL-Library.Sublist"
begin

section \<open>JavaScript values, settled operations and thrown values\<close>

text \<open>
  The async helpers branch on the truthiness of the error slot of a result pair
  (\<^verbatim>\<open>if (!err)\<close>, \<^verbatim>\<open>if (err)\<close>, \<^verbatim>\<open>!!x.error\<close>, \<^verbatim>\<open>r.exc\<close>) and read a property of a
  caught value (\<^verbatim>\<open>err._exited\<close>), so values are modelled with the structure these
  tests look at. Numbers are integers here (no NaN, no fractions); an object is the
  list of its own properties.

  The definitions carry the names of the source. Where a name is taken in HOL or is
  a keyword it has a suffix: \<^verbatim>\<open>range\<close> is \<open>range_gen\<close>, \<^verbatim>\<open>list\<close> is \<open>list_gen\<close>, \<^verbatim>\<open>sort\<close> is
  \<open>sort_array\<close>, \<^verbatim>\<open>map\<close> is \<open>map_async\<close>, \<^verbatim>\<open>defer\<close> is \<open>defer_async\<close> and \<^verbatim>\<open>all\<close> is
  \<open>all_async\<close>.
\<close>

datatype jsval =
    Undefined
  | Null
  | JBool bool
  | JNum int
  | JStr string
  | JObj "(string \<times> jsval) list"

text \<open>ToBoolean: \<^verbatim>\<open>undefined\<close>, \<^verbatim>\<open>null\<close>, \<^verbatim>\<open>false\<close>, \<^verbatim>\<open>0\<close> and \<^verbatim>\<open>''\<close> are falsy, every object is truthy.\<close>

fun truthy :: "jsval \<Rightarrow> bool" where
  "truthy Undefined = False"
| "truthy Null = False"
| "truthy (JBool b) = b"
| "truthy (JNum n) = (n \<noteq> 0)"
| "truthy (JStr s) = (s \<noteq> [])"
| "truthy (JObj ps) = True"

text \<open>
  Property read \<^verbatim>\<open>v.k\<close>. A primitive has no own property of the names read here, a
  missing property reads \<^verbatim>\<open>undefined\<close>. The source reads a property only of a value it
  has just tested truthy, so the TypeError of reading \<^verbatim>\<open>undefined.k\<close> or \<^verbatim>\<open>null.k\<close> is
  never reached.
\<close>

fun get_prop :: "jsval \<Rightarrow> string \<Rightarrow> jsval" where
  "get_prop (JObj ps) k = (case map_of ps k of Some v \<Rightarrow> v | None \<Rightarrow> Undefined)"
| "get_prop v k = Undefined"

text \<open>
  How a call of a user function settles: it returns (or its promise resolves with) a
  value, or it throws (or its promise rejects with) a value. Any value can be thrown.
  Every call is taken to settle: a promise that stays pending for ever, on which the
  helpers would wait for ever too, has no outcome here.
\<close>

datatype 'a outcome = Resolves 'a | Rejects jsval

text \<open>
  What one of the helpers raises: a value it passes on, or the \<^verbatim>\<open>AggregateError\<close> it
  builds, whose \<^verbatim>\<open>errors\<close> field is modelled (name, message and stack are derived
  from it for display).
\<close>

datatype exn = Thrown jsval | AggregateError (errors: "jsval list")

datatype 'a completion = Returned 'a | Raised exn

subsection \<open>tryit\<close>

text \<open>
  \<^verbatim>\<open>tryit(func)(...args)\<close> gives \<^verbatim>\<open>[undefined, value]\<close> when the call settles with a value
  and \<^verbatim>\<open>[err, undefined]\<close> when it throws or rejects with \<^verbatim>\<open>err\<close>; \<open>settle\<close> is the pair
  of an outcome.
\<close>

definition settle :: "jsval outcome \<Rightarrow> jsval \<times> jsval" where
  "settle out =
     (case out of
        Resolves v \<Rightarrow> (Undefined, v)
      | Rejects err \<Rightarrow> (err, Undefined))"

definition tryit :: "('x \<Rightarrow> jsval outcome) \<Rightarrow> 'x \<Rightarrow> jsval \<times> jsval" where
  "tryit func args = settle (func args)"

subsection \<open>range, list, sort and fork\<close>

text \<open>
  \<^verbatim>\<open>range(startOrLength, end)\<close> with the default mapper and step 1:
  \<^verbatim>\<open>start = end ? startOrLength : 0\<close>, \<^verbatim>\<open>final = end ?? startOrLength\<close>, then the loop
  \<^verbatim>\<open>for (i = start; i <= final; i += 1) { yield i; if (i + 1 > final) break }\<close>.
  \<^verbatim>\<open>list\<close> collects the generator in an array.
\<close>

function range_from :: "int \<Rightarrow> int \<Rightarrow> int list" where
  "range_from i final =
     (if i \<le> final
      then i # (if i + 1 > final then [] else range_from (i + 1) final)
      else [])"
  by pat_completeness auto
termination
  by (relation "measure (\<lambda>(i, final). nat (final + 1 - i))") auto

declare range_from.simps [simp del]

definition range_gen :: "int \<Rightarrow> int option \<Rightarrow> int list" where
  "range_gen startOrLength end' =
     (let start = (case end' of Some e \<Rightarrow> if e \<noteq> 0 then startOrLength else 0 | None \<Rightarrow> 0);
          final = (case end' of Some e \<Rightarrow> e | None \<Rightarrow> startOrLength)
      in range_from start final)"

definition list_gen :: "int \<Rightarrow> int option \<Rightarrow> int list" where
  "list_gen startOrLength end' = range_gen startOrLength end'"

text \<open>
  \<^verbatim>\<open>sort(array, getter, desc)\<close> copies the array and sorts the copy with the comparator
  \<^verbatim>\<open>getter(a) - getter(b)\<close> (or the reverse difference when \<^verbatim>\<open>desc\<close>); the array sort is
  stable.
\<close>

definition sort_array :: "'a list \<Rightarrow> ('a \<Rightarrow> int) \<Rightarrow> bool \<Rightarrow> 'a list" where
  "sort_array array getter desc =
     (if desc then sort_key (\<lambda>a. - getter a) array else sort_key getter array)"

text \<open>\<^verbatim>\<open>fork(list, condition)\<close>: a reduce that appends each item to the first or the second list.\<close>

definition fork :: "'a list \<Rightarrow> ('a \<Rightarrow> bool) \<Rightarrow> 'a list \<times> 'a list" where
  "fork list condition =
     foldl (\<lambda>(a, b) item. if condition item then (a @ [item], b) else (a, b @ [item]))
       ([], []) list"

section \<open>retry\<close>

record retry_options =
  times :: "int option"
  delay :: "int option"
  backoff :: "(int \<Rightarrow> int) option"

text \<open>
  What a run of \<^verbatim>\<open>retry\<close> does besides settling: it invokes the operation (the event
  carries the loop variable \<^verbatim>\<open>i\<close>) and it sleeps.
\<close>

datatype event = Attempt int | Sleep int

text \<open>The capability handed to the operation: \<^verbatim>\<open>(err) => { throw { _exited: err } }\<close>.\<close>

definition exit :: "jsval \<Rightarrow> jsval outcome" where
  "exit err = Rejects (JObj [(''_exited'', err)])"

text \<open>
  The operation is given the capability and may behave differently from one
  invocation to the next: its second argument is the number of invocations before
  this one. An operation that calls \<^verbatim>\<open>exit(err)\<close> and lets the throw pass settles as
  \<open>exit err\<close> does.
\<close>

type_synonym operation = "(jsval \<Rightarrow> jsval outcome) \<Rightarrow> nat \<Rightarrow> jsval outcome"

text \<open>
  The body of \<^verbatim>\<open>for (const i of range(1, times))\<close>, over the values the generator
  yields; falling out of the loop returns \<^verbatim>\<open>undefined\<close>.
\<close>

fun retry_loop ::
  "int \<Rightarrow> int option \<Rightarrow> (int \<Rightarrow> int) option \<Rightarrow> operation \<Rightarrow>
   int list \<Rightarrow> nat \<Rightarrow> event list \<Rightarrow> jsval completion \<times> event list" where
  "retry_loop times' delay' backoff' func [] n tr = (Returned Undefined, tr)"
| "retry_loop times' delay' backoff' func (i # rest) n tr =
     (let (err, result) = tryit (func exit) n;
          tr1 = tr @ [Attempt i]
      in if \<not> truthy err then (Returned result, tr1)
         else if truthy (get_prop err ''_exited'') then (Raised (Thrown (get_prop err ''_exited'')), tr1)
         else if i = times' then (Raised (Thrown err), tr1)
         else
           let tr2 = (case delay' of
                        Some d \<Rightarrow> if d \<noteq> 0 then tr1 @ [Sleep d] else tr1
                      | None \<Rightarrow> tr1);
               tr3 = (case backoff' of
                        Some b \<Rightarrow> tr2 @ [Sleep (b i)]
                      | None \<Rightarrow> tr2)
           in retry_loop times' delay' backoff' func rest (Suc n) tr3)"

text \<open>\<^verbatim>\<open>options?.times ?? 3\<close>\<close>

definition effective_times :: "retry_options \<Rightarrow> int" where
  "effective_times options = (case times options of Some t \<Rightarrow> t | None \<Rightarrow> 3)"

definition retry :: "retry_options \<Rightarrow> operation \<Rightarrow> jsval completion \<times> event list" where
  "retry options func =
     (let times' = effective_times options;
          delay' = delay options;
          backoff' = backoff options
      in retry_loop times' delay' backoff' func (range_gen 1 (Some times')) 0 [])"

subsection \<open>Vocabulary for the statements about retry\<close>

text \<open>
  An attempt that sends the loop on to its sleeps: it failed, the caught value is
  truthy and its \<^verbatim>\<open>_exited\<close> property is falsy.
\<close>

definition retryable :: "jsval outcome \<Rightarrow> bool" where
  "retryable out =
     (case out of
        Rejects e \<Rightarrow> truthy e \<and> \<not> truthy (get_prop e ''_exited'')
      | Resolves v \<Rightarrow> False)"

text \<open>The sleeps the loop body performs after a failed attempt \<open>i\<close> that is not the last.\<close>

definition sleeps_after :: "int option \<Rightarrow> (int \<Rightarrow> int) option \<Rightarrow> int \<Rightarrow> event list" where
  "sleeps_after delay' backoff' i =
     (case delay' of Some d \<Rightarrow> if d \<noteq> 0 then [Sleep d] else [] | None \<Rightarrow> []) @
     (case backoff' of Some b \<Rightarrow> [Sleep (b i)] | None \<Rightarrow> [])"

text \<open>The trace of \<open>j\<close> failed attempts, each followed by its sleeps.\<close>

definition failed_attempts :: "retry_options \<Rightarrow> nat \<Rightarrow> event list" where
  "failed_attempts options j =
     concat (map (\<lambda>i. Attempt i # sleeps_after (delay options) (backoff options) i) [1..int j])"

text \<open>The loop variables of the invocations in a trace, in order.\<close>

fun attempts :: "event list \<Rightarrow> int list" where
  "attempts [] = []"
| "attempts (Attempt i # tr) = i # attempts tr"
| "attempts (Sleep ms # tr) = attempts tr"

section \<open>map\<close>

text \<open>
  The strictly sequential map of the library: \<^verbatim>\<open>for (const value of array)\<close> awaits
  \<^verbatim>\<open>asyncMapFunc(value, index++)\<close> and pushes the value; a rejected await ends the
  function with that rejection.
\<close>

fun map_loop ::
  "('a \<Rightarrow> nat \<Rightarrow> jsval outcome) \<Rightarrow> 'a list \<Rightarrow> nat \<Rightarrow> jsval list \<Rightarrow> jsval list completion" where
  "map_loop asyncMapFunc [] index result = Returned result"
| "map_loop asyncMapFunc (v # rest) index result =
     (case asyncMapFunc v index of
        Resolves newValue \<Rightarrow> map_loop asyncMapFunc rest (Suc index) (result @ [newValue])
      | Rejects err \<Rightarrow> Raised (Thrown err))"

definition map_async :: "'a list \<Rightarrow> ('a \<Rightarrow> nat \<Rightarrow> jsval outcome) \<Rightarrow> jsval list completion" where
  "map_async array asyncMapFunc = map_loop asyncMapFunc array 0 []"

section \<open>defer\<close>

text \<open>
  A registered callback \<^verbatim>\<open>{ fn, rethrow }\<close>; \<^verbatim>\<open>register(fn, options)\<close> pushes one with
  \<^verbatim>\<open>rethrow: options?.rethrow ?? false\<close>.
\<close>

record callback =
  fn :: "jsval \<Rightarrow> jsval outcome"
  rethrow :: bool

record register_options =
  rethrow_option :: "bool option"

definition register ::
  "(jsval \<Rightarrow> jsval outcome) \<Rightarrow> register_options option \<Rightarrow> callback list \<Rightarrow> callback list" where
  "register fn' options callbacks =
     callbacks @
     [\<lparr>fn = fn',
       rethrow = (case options of
                    Some opts \<Rightarrow> (case rethrow_option opts of Some b \<Rightarrow> b | None \<Rightarrow> False)
                  | None \<Rightarrow> False)\<rparr>]"

text \<open>
  The body receives \<^verbatim>\<open>register\<close> and runs against the list of callbacks registered so
  far: it settles and leaves the list as its calls of \<^verbatim>\<open>register\<close> made it.
\<close>

type_synonym body =
  "((jsval \<Rightarrow> jsval outcome) \<Rightarrow> register_options option \<Rightarrow> callback list \<Rightarrow> callback list) \<Rightarrow>
   callback list \<Rightarrow> jsval outcome \<times> callback list"

text \<open>
  \<^verbatim>\<open>for (const { fn, rethrow } of callbacks)\<close>: each callback is called through \<^verbatim>\<open>tryit\<close>
  with the body's error; \<^verbatim>\<open>if (rethrown && rethrow) throw rethrown\<close> leaves the loop. \<open>k\<close> is
  the position of the callback in the list, \<open>called\<close> the positions called so far.
\<close>

fun run_callbacks :: "jsval \<Rightarrow> callback list \<Rightarrow> nat \<Rightarrow> nat list \<Rightarrow> jsval option \<times> nat list" where
  "run_callbacks err [] k called = (None, called)"
| "run_callbacks err (cb # rest) k called =
     (let (rethrown, response) = tryit (fn cb) err;
          called1 = called @ [k]
      in if truthy rethrown \<and> rethrow cb then (Some rethrown, called1)
         else run_callbacks err rest (Suc k) called1)"

text \<open>
  \<^verbatim>\<open>defer\<close>: run the body through \<^verbatim>\<open>tryit\<close>, then the callbacks, then
  \<^verbatim>\<open>if (err) throw err; return response\<close>. The result comes with the positions of the
  callbacks that were called, in call order.
\<close>

definition defer_async :: "body \<Rightarrow> jsval completion \<times> nat list" where
  "defer_async func =
     (let (out, callbacks) = func register [];
          (err, response) = settle out
      in case run_callbacks err callbacks 0 [] of
           (Some rethrown, called) \<Rightarrow> (Raised (Thrown rethrown), called)
         | (None, called) \<Rightarrow>
             (if truthy err then Raised (Thrown err) else Returned response, called))"

section \<open>parallel\<close>

text \<open>
  The worker function settles for each item in a way that depends on the item only.
  \<^verbatim>\<open>work\<close> holds \<^verbatim>\<open>{ index, item }\<close> for every element of the array; a queue (one
  \<^verbatim>\<open>new Promise(processor)\<close>) is either suspended at
  \<^verbatim>\<open>await tryit(func)(next.item)\<close> with the results it has pushed so far, or has resolved
  with its results.
\<close>

datatype 'a work_item = WorkItem (next_index: nat) (next_item: 'a)

record WorkItemResult =
  error :: jsval
  result :: jsval
  index :: nat

datatype 'a processor =
    Awaiting (results: "WorkItemResult list") (pending: "'a work_item")
  | Resolved (results: "WorkItemResult list")

record 'a executor =
  work :: "'a work_item list"
  queues :: "'a processor list"
  invoked :: "nat list"

text \<open>
  One pass of \<^verbatim>\<open>while (true)\<close> up to the \<^verbatim>\<open>await\<close>: \<^verbatim>\<open>work.pop()\<close> takes the last element;
  with nothing left the queue resolves, otherwise \<^verbatim>\<open>func\<close> is invoked on the item (the
  index is noted in \<open>invoked\<close>) and the queue suspends.
\<close>

definition processor :: "WorkItemResult list \<Rightarrow> 'a executor \<Rightarrow> 'a processor \<times> 'a executor" where
  "processor results' st =
     (if work st = [] then (Resolved results', st)
      else
        let nxt = last (work st)
        in (Awaiting results' nxt,
            st\<lparr>work := butlast (work st), invoked := invoked st @ [next_index nxt]\<rparr>))"

text \<open>
  \<^verbatim>\<open>list(1, limit).map(() => new Promise(processor))\<close>: the executor of a promise runs at
  once, so each queue pops its first item while the queues are created.
\<close>

definition new_queue :: "'a executor \<Rightarrow> 'a executor" where
  "new_queue st = (let (p, st') = processor [] st in st'\<lparr>queues := queues st' @ [p]\<rparr>)"

definition create_queues :: "int \<Rightarrow> 'a executor \<Rightarrow> 'a executor" where
  "create_queues limit st = fold (\<lambda>q. new_queue) (list_gen 1 (Some limit)) st"

text \<open>
  The \<^verbatim>\<open>await\<close> of queue \<open>w\<close> completes: it pushes \<^verbatim>\<open>{ error, result, index }\<close> and goes
  round the loop again.
\<close>

definition resume :: "('a \<Rightarrow> jsval outcome) \<Rightarrow> nat \<Rightarrow> 'a executor \<Rightarrow> 'a executor" where
  "resume func w st =
     (case queues st ! w of
        Resolved rs \<Rightarrow> st
      | Awaiting rs nxt \<Rightarrow>
          let (error', result') = tryit func (next_item nxt);
              (p, st') = processor (rs @ [\<lparr>error = error', result = result', index = next_index nxt\<rparr>]) st
          in st'\<lparr>queues := (queues st')[w := p]\<rparr>)"

text \<open>
  The order in which the suspended queues complete is the timing of the run. A
  schedule chooses, at each step, which of the queues then suspended completes next
  (an exhausted schedule chooses the first).
\<close>

definition awaiting :: "'a executor \<Rightarrow> nat list" where
  "awaiting st = filter (\<lambda>w. is_Awaiting (queues st ! w)) [0..<length (queues st)]"

definition pick :: "nat list \<Rightarrow> nat list \<Rightarrow> nat" where
  "pick sched ws = ws ! (case sched of [] \<Rightarrow> 0 | c # cs \<Rightarrow> c mod length ws)"

text \<open>A queue that is suspended at its \<^verbatim>\<open>await\<close> counts 1, a resolved one 0.\<close>

definition in_flight :: "'a processor \<Rightarrow> nat" where
  "in_flight p = (if is_Awaiting p then 1 else 0)"

function run :: "('a \<Rightarrow> jsval outcome) \<Rightarrow> nat list \<Rightarrow> 'a executor \<Rightarrow> 'a executor" where
  "run func sched st =
     (if awaiting st = [] then st
      else run func (tl sched) (resume func (pick sched (awaiting st)) st))"
  by pat_completeness auto
termination
proof (relation "measure (\<lambda>(func, sched, st). length (work st) + sum_list (map in_flight (queues st)))")
  show "wf (measure (\<lambda>(func :: 'a \<Rightarrow> jsval outcome, sched :: nat list, st :: 'a executor).
          length (work st) + sum_list (map in_flight (queues st))))"
    by simp
next
  fix func :: "'a \<Rightarrow> jsval outcome" and sched :: "nat list" and st :: "'a executor"
  assume ne: "awaiting st \<noteq> []"
  define w where "w = pick sched (awaiting st)"
  have "w \<in> set (awaiting st)"
    using ne by (auto simp: w_def pick_def split: list.splits)
  then have w: "w < length (queues st)" and a: "is_Awaiting (queues st ! w)"
    by (simp_all add: awaiting_def)
  from a obtain rs nxt where q: "queues st ! w = Awaiting rs nxt"
    by (cases "queues st ! w") auto
  have "in_flight (queues st ! w) \<in> set (map in_flight (queues st))"
    using w by simp
  then have "in_flight (queues st ! w) \<le> sum_list (map in_flight (queues st))"
    by (rule member_le_sum_list) simp
  then have pos: "1 \<le> sum_list (map in_flight (queues st))"
    using a by (simp add: in_flight_def)
  have upd: "sum_list (map in_flight ((queues st)[w := p])) =
             sum_list (map in_flight (queues st)) + in_flight p - 1" for p
    using w a by (simp add: map_update sum_list_update in_flight_def)
  have "length (work (resume func w st)) + sum_list (map in_flight (queues (resume func w st)))
        < length (work st) + sum_list (map in_flight (queues st))"
    using q pos
    by (cases "work st = []")
       (auto simp: resume_def processor_def upd in_flight_def Let_def split: prod.splits)
  then show "((func, tl sched, resume func (pick sched (awaiting st)) st), func, sched, st)
        \<in> measure (\<lambda>(func, sched, st). length (work st) + sum_list (map in_flight (queues st)))"
    by (simp add: w_def)
qed

declare run.simps [simp del]

text \<open>
  \<^verbatim>\<open>parallel(limit, array, func)\<close> under a schedule, with the indices on which the
  worker function was invoked, in invocation order.
\<close>

definition parallel ::
  "int \<Rightarrow> 'a list \<Rightarrow> ('a \<Rightarrow> jsval outcome) \<Rightarrow> nat list \<Rightarrow> jsval list completion \<times> nat list" where
  "parallel limit array func sched =
     (let work0 = map (\<lambda>(index', item). WorkItem index' item) (enumerate 0 array);
          st = run func sched (create_queues limit \<lparr>work = work0, queues = [], invoked = []\<rparr>);
          itemResults = map results (queues st);
          (errors', results') =
             fork (sort_array (concat itemResults) (\<lambda>r. int (index r)) False) (\<lambda>x. truthy (error x))
      in (if length errors' > 0 then Raised (AggregateError (map error errors'))
          else Returned (map result results'),
          invoked st))"

section \<open>all\<close>

text \<open>
  The argument is an array of promises or an object whose values are promises; each
  promise is given by how it settles, an object by its entries in the order of
  \<^verbatim>\<open>Object.entries\<close>. \<^verbatim>\<open>then\<close> maps a resolved value to \<^verbatim>\<open>{ result, exc: null, key }\<close>
  and \<^verbatim>\<open>catch\<close> a rejection to \<^verbatim>\<open>{ result: null, exc, key }\<close>; the object result is built
  by \<^verbatim>\<open>{ ...acc, [item.key]: item.result }\<close>. The field \<open>res\<close> is the \<^verbatim>\<open>result\<close> of the
  source.
\<close>

datatype promises = PromiseArray "jsval outcome list" | PromiseRecord "(string \<times> jsval outcome) list"

datatype containers = ValueArray "jsval list" | ValueRecord "(string \<times> jsval) list"

record settled =
  res :: jsval
  exc :: jsval
  key :: "string option"

definition all_async :: "promises \<Rightarrow> containers completion" where
  "all_async promises =
     (let entries = (case promises of
                       PromiseArray ps \<Rightarrow> map (\<lambda>p. (None, p)) ps
                     | PromiseRecord obj \<Rightarrow> map (\<lambda>(k, p). (Some k, p)) obj);
          results' = map (\<lambda>(key', v).
                        case v of
                          Resolves r \<Rightarrow> \<lparr>res = r, exc = Null, key = key'\<rparr>
                        | Rejects e \<Rightarrow> \<lparr>res = Null, exc = e, key = key'\<rparr>) entries;
          exceptions = filter (\<lambda>r. truthy (exc r)) results'
      in if length exceptions > 0 then Raised (AggregateError (map exc exceptions))
         else case promises of
                PromiseArray ps \<Rightarrow> Returned (ValueArray (map res results'))
              | PromiseRecord obj \<Rightarrow>
                  Returned (ValueRecord
                    (foldl (\<lambda>acc item.
                        AList.update (case key item of Some k \<Rightarrow> k | None \<Rightarrow> ''null'') (res item) acc)
                      [] results')))"

section \<open>Vocabulary for the statements and invariants\<close>

text \<open>
  Of a list of settled operations, in order: the truthy values they failed with; the
  value in the result slot of each (\<^verbatim>\<open>undefined\<close> for a failure, as \<^verbatim>\<open>tryit\<close> leaves it);
  the same with \<^verbatim>\<open>null\<close> for a failure, as \<^verbatim>\<open>all\<close> leaves it.
\<close>

definition truthy_failures :: "jsval outcome list \<Rightarrow> jsval list" where
  "truthy_failures outs = [e. Rejects e \<leftarrow> outs, truthy e]"

definition settled_values :: "jsval outcome list \<Rightarrow> jsval list" where
  "settled_values outs = map (\<lambda>out. case out of Resolves v \<Rightarrow> v | Rejects e \<Rightarrow> Undefined) outs"

definition settled_or_null :: "jsval outcome list \<Rightarrow> jsval list" where
  "settled_or_null outs = map (\<lambda>out. case out of Resolves v \<Rightarrow> v | Rejects e \<Rightarrow> Null) outs"

text \<open>
  What \<^verbatim>\<open>parallel\<close> settles with, read off the input in input order: the values when
  no item failed with a truthy value, the \<^verbatim>\<open>AggregateError\<close> of the truthy failures
  otherwise.
\<close>

definition parallel_outcome :: "'a list \<Rightarrow> ('a \<Rightarrow> jsval outcome) \<Rightarrow> jsval list completion" where
  "parallel_outcome array func =
     (if truthy_failures (map func array) = [] then Returned (settled_values (map func array))
      else Raised (AggregateError (truthy_failures (map func array))))"

text \<open>
  A callback that ends the loop of \<^verbatim>\<open>defer\<close> when called with \<open>err\<close>: it was registered
  with \<^verbatim>\<open>rethrow: true\<close> and fails with a truthy value.
\<close>

definition rethrows :: "jsval \<Rightarrow> callback \<Rightarrow> bool" where
  "rethrows err cb \<longleftrightarrow> rethrow cb \<and> truthy (fst (tryit (fn cb) err))"

text \<open>
  The record a queue pushes for a work item, and the records of a whole array in
  input order.
\<close>

definition item_result :: "('a \<Rightarrow> jsval outcome) \<Rightarrow> 'a work_item \<Rightarrow> WorkItemResult" where
  "item_result func wi =
     \<lparr>error = fst (tryit func (next_item wi)),
      result = snd (tryit func (next_item wi)),
      index = next_index wi\<rparr>"

definition settled_items :: "('a \<Rightarrow> jsval outcome) \<Rightarrow> 'a list \<Rightarrow> WorkItemResult list" where
  "settled_items func array =
     map (\<lambda>(i, x). \<lparr>error = fst (tryit func x), result = snd (tryit func x), index = i\<rparr>)
       (enumerate 0 array)"

text \<open>
  The records a queue accounts for: those it has pushed and the one of the item it
  is suspended on. The invariant of a run: every work item is either still in
  \<^verbatim>\<open>work\<close> or accounted for by exactly one queue; the items were popped from the end,
  each invoked when popped; and while work is left no queue has resolved.
\<close>

definition account :: "('a \<Rightarrow> jsval outcome) \<Rightarrow> 'a processor \<Rightarrow> WorkItemResult list" where
  "account func p =
     (case p of
        Awaiting rs nxt \<Rightarrow> rs @ [item_result func nxt]
      | Resolved rs \<Rightarrow> rs)"

definition executor_inv ::
  "('a \<Rightarrow> jsval outcome) \<Rightarrow> 'a work_item list \<Rightarrow> 'a executor \<Rightarrow> bool" where
  "executor_inv func work0 st \<longleftrightarrow>
     mset (concat (map (account func) (queues st))) + mset (map (item_result func) (work st)) =
       mset (map (item_result func) work0) \<and>
     map next_index (work st) @ rev (invoked st) = map next_index work0 \<and>
     (work st \<noteq> [] \<longrightarrow> (\<forall>p\<in>set (queues st). is_Awaiting p))"

section \<open>Proofs: retry\<close>

lemma range_from_upto: "range_from i final = [i..final]"
proof (induction i final rule: range_from.induct)
  case (1 i final)
  show ?case
  proof (cases "i \<le> final")
    case True
    then show ?thesis
      using "1.IH" by (subst range_from.simps) (auto simp: upto_rec1)
  next
    case False
    then show ?thesis by (subst range_from.simps) simp
  qed
qed

lemma retry_loop_retryable_step:
  assumes "retryable (func exit n)" "i \<noteq> T"
  shows "retry_loop T d bo func (i # rest) n tr =
         retry_loop T d bo func rest (Suc n) (tr @ Attempt i # sleeps_after d bo i)"
  using assms
  by (auto simp: retryable_def tryit_def settle_def sleeps_after_def Let_def
           split: outcome.splits option.splits)

lemma retry_loop_skip:
  assumes "\<forall>k<j. retryable (func exit (n + k))" "a + int j \<le> b" "b \<le> T"
  shows "retry_loop T d bo func [a..b] n tr =
         retry_loop T d bo func [a + int j..b] (n + j)
           (tr @ concat (map (\<lambda>i. Attempt i # sleeps_after d bo i) [a..a + int j - 1]))"
  using assms
proof (induction j arbitrary: a n tr)
  case 0
  then show ?case by simp
next
  case (Suc j)
  have ab: "a \<le> b" "a \<noteq> T" using Suc.prems by auto
  have r0: "retryable (func exit n)" using Suc.prems(1) by (metis add.right_neutral zero_less_Suc)
  have rest: "\<forall>k<j. retryable (func exit (Suc n + k))"
    using Suc.prems(1) by (metis Suc_less_eq add_Suc_shift)
  have up: "[a..b] = a # [a + 1..b]" using ab by (simp add: upto_rec1)
  have up2: "[a..a + int (Suc j) - 1] = a # [a + 1..a + 1 + int j - 1]"
    by (simp add: upto_rec1)
  have "retry_loop T d bo func [a..b] n tr =
        retry_loop T d bo func [a + 1..b] (Suc n) (tr @ Attempt a # sleeps_after d bo a)"
    unfolding up using r0 ab(2) by (rule retry_loop_retryable_step)
  also have "\<dots> = retry_loop T d bo func [a + 1 + int j..b] (Suc n + j)
      ((tr @ Attempt a # sleeps_after d bo a) @
        concat (map (\<lambda>i. Attempt i # sleeps_after d bo i) [a + 1..a + 1 + int j - 1]))"
    using Suc.prems by (intro Suc.IH rest) auto
  finally show ?case unfolding up2 by (simp add: add.commute add.left_commute)
qed

text \<open>
  After \<open>j\<close> retryable failures, with the budget not yet used up, the loop stands at
  attempt \<open>j + 1\<close> with the trace of the failed attempts behind it.
\<close>

lemma retry_after_failures:
  assumes "\<forall>n<j. retryable (func exit n)" "int j < effective_times options"
  shows "retry options func =
         retry_loop (effective_times options) (delay options) (backoff options) func
           ((int j + 1) # [int j + 2..effective_times options]) j (failed_attempts options j)"
proof -
  let ?T = "effective_times options"
  have T: "1 \<le> ?T" using assms(2) by linarith
  have rg: "range_gen 1 (Some ?T) = [1..?T]"
    using T by (simp add: range_gen_def range_from_upto)
  have "retry options func = retry_loop ?T (delay options) (backoff options) func [1..?T] 0 []"
    using rg by (simp add: retry_def Let_def)
  also have "\<dots> = retry_loop ?T (delay options) (backoff options) func [1 + int j..?T] (0 + j)
      ([] @ concat (map (\<lambda>i. Attempt i # sleeps_after (delay options) (backoff options) i)
         [1..1 + int j - 1]))"
    using assms by (intro retry_loop_skip) auto
  also have "[1 + int j..?T] = (int j + 1) # [int j + 2..?T]"
    using assms(2) by (simp add: upto_rec1 add.commute)
  finally show ?thesis by (simp add: failed_attempts_def)
qed

lemma attempts_append: "attempts (xs @ ys) = attempts xs @ attempts ys"
  by (induction xs rule: attempts.induct) auto

lemma attempts_sleeps_after: "attempts (sleeps_after d bo i) = []"
  by (auto simp: sleeps_after_def split: option.splits)

lemma attempts_concat_failed:
  "attempts (concat (map (\<lambda>i. Attempt i # sleeps_after d bo i) xs)) = xs"
  by (induction xs) (auto simp: attempts_append attempts_sleeps_after)

lemma attempts_failed_attempts: "attempts (failed_attempts options j) = [1..int j]"
  by (simp add: failed_attempts_def attempts_concat_failed)

lemma retry_loop_trace_prefix: "prefix tr (snd (retry_loop T dl bo func rest n tr))"
proof (induction rest arbitrary: n tr)
  case Nil
  then show ?case by simp
next
  case (Cons i rest)
  have "\<And>x. prefix (tr @ x) (snd (retry_loop T dl bo func rest (Suc n) (tr @ x))) \<Longrightarrow>
             prefix tr (snd (retry_loop T dl bo func rest (Suc n) (tr @ x)))"
    using append_prefixD by blast
  then show ?case
    using Cons.IH
    by (auto simp: Let_def split: prod.splits option.splits)
qed

lemma retry_loop_first_attempt:
  "prefix (tr @ [Attempt i]) (snd (retry_loop T dl bo func (i # rest) n tr))"
proof -
  have "\<And>x. prefix ((tr @ [Attempt i]) @ x)
               (snd (retry_loop T dl bo func rest (Suc n) ((tr @ [Attempt i]) @ x))) \<Longrightarrow>
             prefix (tr @ [Attempt i])
               (snd (retry_loop T dl bo func rest (Suc n) ((tr @ [Attempt i]) @ x)))"
    using append_prefixD by blast
  then show ?thesis
    using retry_loop_trace_prefix [of _ T dl bo func rest "Suc n"]
    by (auto simp: Let_def split: prod.splits option.splits)
qed





text \<open>
  C5, as the code has it. With a budget of \<open>times \<ge> 1\<close> attempts (3 when the option is
  absent) and an operation whose every attempt fails with a truthy value that has no
  truthy \<^verbatim>\<open>_exited\<close> property, \<open>retry\<close> invokes the operation exactly \<open>times\<close> times,
  with the loop variable running from 1 to \<open>times\<close>, and raises the value of the last
  attempt as it is.
\<close>

theorem retry_exhausted_raises_last_failure:
  assumes "1 \<le> effective_times options"
      and "\<forall>n < nat (effective_times options).
             func exit n = Rejects (errs n) \<and> truthy (errs n) \<and>
             \<not> truthy (get_prop (errs n) ''_exited'')"
  shows "fst (retry options func) = Raised (Thrown (errs (nat (effective_times options) - 1))) \<and>
         attempts (snd (retry options func)) = [1..effective_times options]"
proof -
  let ?T = "effective_times options"
  define j where "j = nat ?T - 1"
  have j: "int j + 1 = ?T" "j < nat ?T" using assms(1) by (auto simp: j_def)
  have r: "\<forall>n<j. retryable (func exit n)"
    using assms(2) j by (auto simp: retryable_def)
  have lt: "int j < ?T" using j by linarith
  have last: "func exit j = Rejects (errs j)" "truthy (errs j)"
    "\<not> truthy (get_prop (errs j) ''_exited'')"
    using assms(2) j(2) by auto
  have "retry options func =
        (Raised (Thrown (errs j)), failed_attempts options j @ [Attempt (int j + 1)])"
    unfolding retry_after_failures [of j func options, OF r lt]
    using last j(1) by (simp add: tryit_def settle_def)
  moreover have "[1..int j] @ [int j + 1] = [1..?T]"
  proof -
    have e: "?T = int j + 1" using j(1) by simp
    show ?thesis unfolding e using upto_rec2 [of 1 "int j + 1"] by simp
  qed
  ultimately show ?thesis
    by (simp add: attempts_append attempts_failed_attempts j_def)
qed

theorem retry_exhausted_raises_last_failure_witness:
  "fst (retry \<lparr>times = None, delay = None, backoff = Some (\<lambda>i. 100 * i)\<rparr>
          (\<lambda>ex n. Rejects (JNum (int n + 1)))) = Raised (Thrown (JNum 3)) \<and>
   attempts (snd (retry \<lparr>times = None, delay = None, backoff = Some (\<lambda>i. 100 * i)\<rparr>
          (\<lambda>ex n. Rejects (JNum (int n + 1))))) = [1, 2, 3]"
  using retry_exhausted_raises_last_failure
    [of "\<lparr>times = None, delay = None, backoff = Some (\<lambda>i. 100 * i)\<rparr>"
        "\<lambda>ex n. Rejects (JNum (int n + 1))" "\<lambda>n. JNum (int n + 1)"]
  by (simp add: effective_times_def upto_rec1)

text \<open>
  C5 as stated fails when the failures are falsy: an operation that rejects with
  \<^verbatim>\<open>undefined\<close> on every attempt is invoked once, and \<open>retry\<close> returns \<^verbatim>\<open>undefined\<close>
  instead of raising after three attempts.
\<close>

theorem retry_always_rejecting_undefined_returns:
  "retry \<lparr>times = Some 3, delay = None, backoff = None\<rparr> (\<lambda>ex n. Rejects Undefined) =
   (Returned Undefined, [Attempt 1])"
  by (simp add: retry_def effective_times_def range_gen_def range_from_upto upto_rec1
        tryit_def settle_def)

text \<open>
  C7, as the code has it. When a delay \<open>d\<close> other than 0 and a backoff function \<open>b\<close>
  are both supplied, every attempt \<open>i\<close> that fails with a truthy value without a truthy
  \<^verbatim>\<open>_exited\<close> property and is not the last of the budget is followed by the sleep of \<open>d\<close>
  and then the sleep of \<open>b i\<close>, and only then by attempt \<open>i + 1\<close>: the run begins with
  these triples for the first \<open>j\<close> attempts and attempt \<open>j + 1\<close>.
\<close>

theorem retry_delay_then_backoff:
  assumes "delay options = Some d" "d \<noteq> 0"
      and "backoff options = Some b"
      and "\<forall>n<j. retryable (func exit n)"
      and "int j < effective_times options"
  shows "prefix (concat (map (\<lambda>i. [Attempt i, Sleep d, Sleep (b i)]) [1..int j]) @
                 [Attempt (int j + 1)])
           (snd (retry options func))"
proof -
  have sl: "(\<lambda>i. Attempt i # sleeps_after (delay options) (backoff options) i) =
            (\<lambda>i. [Attempt i, Sleep d, Sleep (b i)])"
    using assms(1-3) by (simp add: sleeps_after_def)
  show ?thesis
    unfolding retry_after_failures [of j func options, OF assms(4,5)]
    using retry_loop_first_attempt [of "failed_attempts options j" "int j + 1"]
    by (simp add: failed_attempts_def sl)
qed

theorem retry_delay_then_backoff_witness:
  "prefix [Attempt 1, Sleep 50, Sleep 10, Attempt 2, Sleep 50, Sleep 20, Attempt 3]
     (snd (retry \<lparr>times = Some 4, delay = Some 50, backoff = Some (\<lambda>i. 10 * i)\<rparr>
        (\<lambda>ex n. if n < 2 then Rejects (JStr ''busy'') else Resolves (JStr ''done''))))"
  using retry_delay_then_backoff
    [of "\<lparr>times = Some 4, delay = Some 50, backoff = Some (\<lambda>i. 10 * i)\<rparr>" 50 "\<lambda>i. 10 * i" 2
        "\<lambda>ex n. if n < 2 then Rejects (JStr ''busy'') else Resolves (JStr ''done'')"]
  by (simp add: retryable_def effective_times_def upto_rec1)

text \<open>
  C7 as stated fails in two ways, both with a delay and a backoff supplied. An
  attempt that fails with \<^verbatim>\<open>undefined\<close> is followed by no sleep at all: \<open>retry\<close> returns.
  And with the delay 0 the test \<^verbatim>\<open>if (delay)\<close> makes no sleep for the delay: a failed
  attempt is followed by the backoff sleep only.
\<close>

theorem retry_delay_backoff_sleeps_not_made:
  "retry \<lparr>times = Some 3, delay = Some 50, backoff = Some (\<lambda>i. 10 * i)\<rparr>
     (\<lambda>ex n. Rejects Undefined) = (Returned Undefined, [Attempt 1]) \<and>
   retry \<lparr>times = Some 2, delay = Some 0, backoff = Some (\<lambda>i. 10 * i)\<rparr>
     (\<lambda>ex n. Rejects (JStr ''boom'')) =
     (Raised (Thrown (JStr ''boom'')), [Attempt 1, Sleep 10, Attempt 2])"
  by (simp add: retry_def effective_times_def range_gen_def range_from_upto upto_rec1
        tryit_def settle_def)

text \<open>
  C10. An attempt that throws or rejects with a falsy value (attempt \<open>j + 1\<close>, reached
  after \<open>j\<close> retried failures) ends the run: \<open>retry\<close> returns \<^verbatim>\<open>undefined\<close>, the thrown
  value is dropped, nothing is raised and no sleep or further attempt follows.
\<close>

theorem retry_falsy_failure_returns_undefined:
  assumes "\<forall>n<j. retryable (func exit n)"
      and "int j < effective_times options"
      and "func exit j = Rejects e"
      and "\<not> truthy e"
  shows "retry options func =
         (Returned Undefined, failed_attempts options j @ [Attempt (int j + 1)])"
  unfolding retry_after_failures [of j func options, OF assms(1,2)]
  using assms(3,4) by (simp add: tryit_def settle_def)

theorem retry_falsy_failure_returns_undefined_witness:
  "retry \<lparr>times = Some 3, delay = None, backoff = Some (\<lambda>i. 7)\<rparr>
     (\<lambda>ex n. if n = 0 then Rejects (JStr ''first'') else Rejects Null) =
   (Returned Undefined, [Attempt 1, Sleep 7, Attempt 2])"
  using retry_falsy_failure_returns_undefined
    [of 1 "\<lambda>ex n. if n = 0 then Rejects (JStr ''first'') else Rejects Null"
        "\<lparr>times = Some 3, delay = None, backoff = Some (\<lambda>i. 7)\<rparr>" Null]
  by (simp add: retryable_def effective_times_def failed_attempts_def sleeps_after_def)

section \<open>Proofs: parallel\<close>

lemma mset_concat_map_update:
  "w < length xs \<Longrightarrow>
   mset (concat (map f (xs[w := y]))) + mset (f (xs ! w)) = mset (concat (map f xs)) + mset (f y)"
proof (induction xs arbitrary: w)
  case Nil
  then show ?case by simp
next
  case (Cons a xs)
  show ?case
  proof (cases w)
    case 0
    then show ?thesis by simp
  next
    case (Suc v)
    then show ?thesis using Cons.IH [of v] Cons.prems by simp
  qed
qed

lemma processor_empty: "work st = [] \<Longrightarrow> processor rs st = (Resolved rs, st)"
  by (simp add: processor_def)

lemma processor_pop:
  "work st = ws @ [nxt] \<Longrightarrow>
   processor rs st = (Awaiting rs nxt, st\<lparr>work := ws, invoked := invoked st @ [next_index nxt]\<rparr>)"
  by (simp add: processor_def)

lemma executor_inv_new_queue:
  assumes "executor_inv func work0 st"
  shows "executor_inv func work0 (new_queue st)"
proof (cases "work st" rule: rev_cases)
  case Nil
  then show ?thesis
    using assms by (simp add: new_queue_def processor_empty executor_inv_def account_def)
next
  case (snoc ws nxt)
  then show ?thesis
    using assms
    by (auto simp: new_queue_def processor_pop [OF snoc] executor_inv_def account_def)
qed

lemma length_queues_new_queue: "length (queues (new_queue st)) = Suc (length (queues st))"
  by (cases "work st" rule: rev_cases)
     (simp_all add: new_queue_def processor_empty processor_pop)

lemma executor_inv_fold_new_queue:
  "executor_inv func work0 st \<Longrightarrow> executor_inv func work0 (fold (\<lambda>q. new_queue) qs st)"
  by (induction qs arbitrary: st) (simp_all add: executor_inv_new_queue)

lemma length_queues_fold_new_queue:
  "length (queues (fold (\<lambda>q. new_queue) qs st)) = length (queues st) + length qs"
  by (induction qs arbitrary: st) (simp_all add: length_queues_new_queue)

lemma resume_item_result:
  "(case tryit func (next_item nxt) of
      (error', result') \<Rightarrow> f \<lparr>error = error', result = result', index = next_index nxt\<rparr>) =
   f (item_result func nxt)"
  by (simp add: item_result_def split: prod.splits)

lemma resume_empty:
  assumes "queues st ! w = Awaiting rs nxt" "work st = []"
  shows "resume func w st = st\<lparr>queues := (queues st)[w := Resolved (rs @ [item_result func nxt])]\<rparr>"
  using assms by (simp add: resume_def processor_empty item_result_def split: prod.splits)

lemma resume_pop:
  assumes "queues st ! w = Awaiting rs nxt" "work st = ws @ [nxt']"
  shows "resume func w st =
         st\<lparr>work := ws, invoked := invoked st @ [next_index nxt'],
            queues := (queues st)[w := Awaiting (rs @ [item_result func nxt]) nxt']\<rparr>"
  using assms by (simp add: resume_def processor_pop item_result_def split: prod.splits)

lemma executor_inv_resume:
  assumes inv: "executor_inv func work0 st"
      and w: "w < length (queues st)" and a: "is_Awaiting (queues st ! w)"
  shows "executor_inv func work0 (resume func w st)"
proof -
  from a obtain rs nxt where q: "queues st ! w = Awaiting rs nxt"
    by (cases "queues st ! w") auto
  have acc: "account func (queues st ! w) = rs @ [item_result func nxt]"
    by (simp add: q account_def)
  show ?thesis
  proof (cases "work st" rule: rev_cases)
    case Nil
    let ?p = "Resolved (rs @ [item_result func nxt]) :: 'a processor"
    have "mset (concat (map (account func) ((queues st)[w := ?p]))) =
          mset (concat (map (account func) (queues st)))"
      using mset_concat_map_update [OF w, of "account func" ?p] acc
      by (simp add: account_def)
    then show ?thesis
      using inv Nil by (simp add: resume_empty [OF q Nil] executor_inv_def)
  next
    case (snoc ws nxt')
    let ?p = "Awaiting (rs @ [item_result func nxt]) nxt'"
    have "mset (concat (map (account func) ((queues st)[w := ?p]))) =
          add_mset (item_result func nxt') (mset (concat (map (account func) (queues st))))"
      using mset_concat_map_update [OF w, of "account func" ?p] acc
      by (simp add: account_def)
    moreover have "\<forall>p\<in>set ((queues st)[w := ?p]). is_Awaiting p"
      using inv snoc set_update_subset_insert [of "queues st" w ?p]
      by (auto simp: executor_inv_def)
    ultimately show ?thesis
      using inv snoc by (simp add: resume_pop [OF q snoc] executor_inv_def)
  qed
qed

lemma length_queues_resume: "length (queues (resume func w st)) = length (queues st)"
  by (cases "queues st ! w"; cases "work st" rule: rev_cases)
     (simp_all add: resume_def processor_empty processor_pop split: prod.splits)

lemma set_awaiting:
  "w \<in> set (awaiting st) \<longleftrightarrow> w < length (queues st) \<and> is_Awaiting (queues st ! w)"
  by (auto simp: awaiting_def)

lemma pick_in_set: "ws \<noteq> [] \<Longrightarrow> pick sched ws \<in> set ws"
  by (auto simp: pick_def split: list.splits)

lemma run_properties:
  "executor_inv func work0 st \<Longrightarrow>
   executor_inv func work0 (run func sched st) \<and>
   length (queues (run func sched st)) = length (queues st) \<and>
   awaiting (run func sched st) = []"
proof (induction func sched st rule: run.induct)
  case (1 func sched st)
  show ?case
  proof (cases "awaiting st = []")
    case True
    then show ?thesis using "1.prems" by (subst (1 2 3) run.simps) simp
  next
    case False
    let ?w = "pick sched (awaiting st)"
    have "?w \<in> set (awaiting st)" using False by (rule pick_in_set)
    then have "executor_inv func work0 (resume func ?w st)"
      using "1.prems" by (simp add: set_awaiting executor_inv_resume)
    from "1.IH" [OF False this] show ?thesis
      using False by (subst (1 2 3) run.simps) (simp add: length_queues_resume)
  qed
qed

lemma executor_finished:
  assumes inv: "executor_inv func work0 st" and fin: "awaiting st = []" and ne: "queues st \<noteq> []"
  shows "mset (concat (map results (queues st))) = mset (map (item_result func) work0)"
    and "invoked st = rev (map next_index work0)"
proof -
  have none: "\<forall>p\<in>set (queues st). \<not> is_Awaiting p"
  proof
    fix p assume "p \<in> set (queues st)"
    then obtain w where "w < length (queues st)" "queues st ! w = p"
      by (auto simp: in_set_conv_nth)
    then show "\<not> is_Awaiting p"
      using fin set_awaiting [of w st] by auto
  qed
  have "work st = []"
  proof (rule ccontr)
    assume "work st \<noteq> []"
    then have "\<forall>p\<in>set (queues st). is_Awaiting p" using inv by (simp add: executor_inv_def)
    with none ne show False by (cases "queues st") auto
  qed
  moreover have "concat (map (account func) (queues st)) = concat (map results (queues st))"
    using none by (intro arg_cong [where f = concat]) (auto simp: account_def split: processor.splits)
  ultimately show "mset (concat (map results (queues st))) = mset (map (item_result func) work0)"
    using inv by (simp add: executor_inv_def)
  from \<open>work st = []\<close> have "rev (invoked st) = map next_index work0"
    using inv by (simp add: executor_inv_def)
  then show "invoked st = rev (map next_index work0)"
    by (metis rev_rev_ident)
qed

lemma sort_key_unique:
  assumes "mset xs = mset ys" "sorted (map f ys)" "distinct (map f ys)"
  shows "sort_key f xs = ys"
proof -
  have "mset (map f (sort_key f xs)) = mset (map f ys)"
    using assms(1) by simp
  then have "map f (sort_key f xs) = map f ys"
    using assms(2) sorted_sort_key [of f xs]
    by (metis properties_for_sort)
  moreover have "inj_on f (set (sort_key f xs) \<union> set ys)"
  proof -
    have "set (sort_key f xs) = set ys" using assms(1) by (metis mset_eq_setD set_sort)
    then show ?thesis using assms(3) by (simp add: distinct_map)
  qed
  ultimately show ?thesis by (simp add: inj_on_map_eq_map)
qed

lemma fork_foldl:
  "foldl (\<lambda>(a, b) item. if c item then (a @ [item], b) else (a, b @ [item])) (a0, b0) xs =
   (a0 @ filter c xs, b0 @ filter (\<lambda>x. \<not> c x) xs)"
  by (induction xs arbitrary: a0 b0) auto

lemma fork_filter: "fork xs c = (filter c xs, filter (\<lambda>x. \<not> c x) xs)"
  by (simp add: fork_def fork_foldl)

lemma list_gen_nonempty: "0 \<le> limit \<Longrightarrow> list_gen 1 (Some limit) \<noteq> []"
  by (simp add: list_gen_def range_gen_def Let_def) (subst range_from.simps, simp)+

lemma settled_items_index: "map index (settled_items func array) = [0..<length array]"
  by (simp add: settled_items_def comp_def case_prod_unfold flip: map_fst_enumerate[of 0 array] )

lemma map_snd_enumerate_fun: "map (\<lambda>p. g (snd p)) (enumerate n xs) = map g xs"
  by (induction xs arbitrary: n) auto

lemma settled_items_error:
  "map error (settled_items func array) = map (\<lambda>x. fst (tryit func x)) array"
  using map_snd_enumerate_fun [of "\<lambda>x. fst (tryit func x)" 0 array]
  by (simp add: settled_items_def comp_def case_prod_unfold)

lemma settled_items_result:
  "map result (settled_items func array) = map (\<lambda>x. snd (tryit func x)) array"
  using map_snd_enumerate_fun [of "\<lambda>x. snd (tryit func x)" 0 array]
  by (simp add: settled_items_def comp_def case_prod_unfold)

lemma item_result_work0:
  "map (item_result func) (map (\<lambda>(index', item). WorkItem index' item) (enumerate 0 array)) =
   settled_items func array"
  by (simp add: settled_items_def item_result_def comp_def case_prod_unfold)

lemma next_index_work0:
  "map next_index (map (\<lambda>(index', item). WorkItem index' item) (enumerate 0 array)) =
   [0..<length array]"
  using map_fst_enumerate [of 0 array] by (simp add: comp_def case_prod_unfold)

lemma truthy_failures_errors:
  "filter truthy (map (\<lambda>x. fst (tryit func x)) array) = truthy_failures (map func array)"
  by (induction array) (auto simp: truthy_failures_def tryit_def settle_def split: outcome.splits)

lemma settled_values_results:
  "map (\<lambda>x. snd (tryit func x)) array = settled_values (map func array)"
  by (induction array) (auto simp: settled_values_def tryit_def settle_def split: outcome.splits)

lemma settled_items_keys:
  "map (\<lambda>r. int (index r)) (settled_items func array) = map int [0..<length array]"
proof -
  have "map (\<lambda>r. int (index r)) (settled_items func array) =
        map int (map index (settled_items func array))"
    by (simp add: comp_def)
  then show ?thesis by (simp only: settled_items_index)
qed

lemma sorted_map_int_upt: "sorted (map int [0..<n])"
  by (induction n) (auto simp: sorted_append)

lemma distinct_map_int_upt: "distinct (map int [0..<n])"
  by (simp add: distinct_map inj_on_def)

lemma parallel_run:
  assumes "0 \<le> limit"
  shows "parallel limit array func sched = (parallel_outcome array func, rev [0..<length array])"
proof -
  define work0 where "work0 = map (\<lambda>(index', item). WorkItem index' item) (enumerate 0 array)"
  define st0 :: "'a executor" where "st0 = \<lparr>work = work0, queues = [], invoked = []\<rparr>"
  define st where "st = run func sched (create_queues limit st0)"
  have "executor_inv func work0 st0"
    by (simp add: executor_inv_def st0_def)
  then have inv1: "executor_inv func work0 (create_queues limit st0)"
    unfolding create_queues_def by (rule executor_inv_fold_new_queue)
  have len1: "queues (create_queues limit st0) \<noteq> []"
    using length_queues_fold_new_queue [of "list_gen 1 (Some limit)" st0]
      list_gen_nonempty [OF assms]
    by (auto simp: create_queues_def)
  from run_properties [OF inv1, of sched]
  have inv: "executor_inv func work0 st" and len: "queues st \<noteq> []" and fin: "awaiting st = []"
    using len1 by (auto simp: st_def)
  note finished = executor_finished [OF inv fin len]
  have sorted: "sort_array (concat (map results (queues st))) (\<lambda>r. int (index r)) False =
                settled_items func array"
  proof -
    have m: "mset (concat (map results (queues st))) = mset (settled_items func array)"
      using finished(1) unfolding work0_def item_result_work0 .
    show ?thesis
      unfolding sort_array_def
      using sort_key_unique [OF m, of "\<lambda>r. int (index r)"]
      by (simp add: settled_items_keys sorted_map_int_upt distinct_map_int_upt)
  qed
  have inv_final: "invoked st = rev [0..<length array]"
    using finished(2) unfolding work0_def next_index_work0 .
  have errs: "map error (filter (\<lambda>x. truthy (error x)) (settled_items func array)) =
              truthy_failures (map func array)"
    by (simp add: settled_items_error truthy_failures_errors
          flip: filter_map [unfolded comp_def, of truthy error])
  have vals: "truthy_failures (map func array) = [] \<Longrightarrow>
              map result (filter (\<lambda>x. \<not> truthy (error x)) (settled_items func array)) =
              settled_values (map func array)"
  proof -
    assume "truthy_failures (map func array) = []"
    then have "filter (\<lambda>x. truthy (error x)) (settled_items func array) = []"
      using errs by simp
    then have "filter (\<lambda>x. \<not> truthy (error x)) (settled_items func array) =
               settled_items func array"
      by (simp add: filter_empty_conv filter_id_conv)
    then show ?thesis by (simp add: settled_items_result settled_values_results)
  qed
  have "parallel limit array func sched =
        (let (errors', results') = fork (settled_items func array) (\<lambda>x. truthy (error x))
         in (if length errors' > 0 then Raised (AggregateError (map error errors'))
             else Returned (map result results'),
             invoked st))"
    using sorted by (simp add: parallel_def Let_def st_def st0_def work0_def)
  then show ?thesis
    using errs vals inv_final
    by (auto simp: fork_filter parallel_outcome_def)
qed

lemma map_loop_all_resolve:
  assumes "\<forall>x\<in>set xs. \<exists>v. f x = Resolves v"
  shows "map_loop (\<lambda>item index'. f item) xs k acc = Returned (acc @ settled_values (map f xs))"
  using assms
proof (induction xs arbitrary: k acc)
  case Nil
  then show ?case by (simp add: settled_values_def)
next
  case (Cons x xs)
  from Cons.prems obtain v where v: "f x = Resolves v" by auto
  have "map_loop (\<lambda>item index'. f item) xs (Suc k) (acc @ [v]) =
        Returned ((acc @ [v]) @ settled_values (map f xs))"
    using Cons.prems by (intro Cons.IH) simp
  then show ?case using v by (simp add: settled_values_def)
qed

lemma truthy_failures_all_resolve:
  "\<forall>x\<in>set xs. \<exists>v. f x = Resolves v \<Longrightarrow> truthy_failures (map f xs) = []"
  by (induction xs) (auto simp: truthy_failures_def)

text \<open>
  C1, as the code has it. For every limit \<open>\<ge> 1\<close>, input, worker function and timing:
  when \<open>k \<ge> 1\<close> items fail with a truthy value, \<open>parallel\<close> raises an
  \<^verbatim>\<open>AggregateError\<close> whose \<^verbatim>\<open>errors\<close> are exactly those \<open>k\<close> values, in the order of the
  items in the input; a failure with a falsy value is not among them. When no item
  fails with a truthy value it returns, in input order, the value of every item,
  with \<^verbatim>\<open>undefined\<close> in the place of an item that failed with a falsy value.
\<close>

theorem parallel_aggregates_truthy_failures:
  assumes "1 \<le> limit"
  shows "fst (parallel limit array func sched) =
         (if truthy_failures (map func array) = []
          then Returned (settled_values (map func array))
          else Raised (AggregateError (truthy_failures (map func array))))"
  using assms by (simp add: parallel_run parallel_outcome_def)

theorem parallel_aggregates_truthy_failures_witness:
  "fst (parallel 2 [1, 2, 3, 4 :: int]
         (\<lambda>x. if even x then Rejects (JNum x) else Resolves (JNum (10 * x))) [1, 0, 1]) =
   Raised (AggregateError [JNum 2, JNum 4])"
  using parallel_aggregates_truthy_failures
    [of 2 "[1, 2, 3, 4 :: int]" "\<lambda>x. if even x then Rejects (JNum x) else Resolves (JNum (10 * x))"
        "[1, 0, 1]"]
  by (simp add: truthy_failures_def)

text \<open>
  C1 as stated fails when an item fails with a falsy value: here exactly one item
  fails (item 2 rejects with \<^verbatim>\<open>undefined\<close>) and \<open>parallel\<close> returns instead of raising.
\<close>

theorem parallel_falsy_failure_not_reported:
  "fst (parallel 1 [1, 2 :: int] (\<lambda>x. if x = 2 then Rejects Undefined else Resolves (JNum x)) []) =
   Returned [JNum 1, Undefined]"
  by (simp add: parallel_run parallel_outcome_def truthy_failures_def settled_values_def)

text \<open>
  C3, as the code has it. The worker function is a function of the item: how it
  settles on an item depends neither on the order or number of its invocations nor
  on a second argument. When such a worker function succeeds on every item (with the
  value \<open>f x\<close> on item \<open>x\<close>), \<open>parallel\<close> with limit 1 settles as the sequential
  \<open>map_async\<close> of the worker function over the input does: both return the values
  \<open>map f array\<close>, in input order. \<open>parallel\<close> invokes the worker function on the items
  from the last to the first.
\<close>

theorem parallel_limit_one_equals_sequential_map:
  assumes "\<forall>x\<in>set array. func x = Resolves (f x)"
  shows "fst (parallel 1 array func sched) = map_async array (\<lambda>item index'. func item) \<and>
         map_async array (\<lambda>item index'. func item) = Returned (map f array) \<and>
         snd (parallel 1 array func sched) = rev [0..<length array]"
proof -
  have res: "\<forall>x\<in>set array. \<exists>v. func x = Resolves v" using assms by auto
  have "settled_values (map func array) = map f array"
    using assms by (induction array) (auto simp: settled_values_def)
  then show ?thesis
    using res
    by (simp add: parallel_run parallel_outcome_def map_async_def map_loop_all_resolve
          truthy_failures_all_resolve)
qed

theorem parallel_limit_one_equals_sequential_map_witness:
  "fst (parallel 1 [1, 2, 3 :: int] (\<lambda>x. Resolves (JNum (2 * x))) []) =
     map_async [1, 2, 3 :: int] (\<lambda>item index'. Resolves (JNum (2 * item))) \<and>
   map_async [1, 2, 3 :: int] (\<lambda>item index'. Resolves (JNum (2 * item))) =
     Returned [JNum 2, JNum 4, JNum 6] \<and>
   snd (parallel 1 [1, 2, 3 :: int] (\<lambda>x. Resolves (JNum (2 * x))) []) = [2, 1, 0]"
  using parallel_limit_one_equals_sequential_map
    [of "[1, 2, 3 :: int]" "\<lambda>x. Resolves (JNum (2 * x))" "\<lambda>x. JNum (2 * x)" "[]"]
  by (simp add: upt_rec)

text \<open>
  C3 as stated fails when an item fails: the sequential map raises the failure
  itself, \<open>parallel\<close> with limit 1 raises an \<^verbatim>\<open>AggregateError\<close> holding it.
\<close>

theorem parallel_limit_one_failure_differs_from_map:
  "fst (parallel 1 [1 :: int] (\<lambda>x. Rejects (JStr ''boom'')) []) =
     Raised (AggregateError [JStr ''boom'']) \<and>
   map_async [1 :: int] (\<lambda>item index'. Rejects (JStr ''boom'')) = Raised (Thrown (JStr ''boom''))"
  by (simp add: parallel_run parallel_outcome_def truthy_failures_def map_async_def)

text \<open>
  C6. With a limit not below the length of the input, under every schedule (every
  order in which the pending calls complete) the worker function is invoked on each
  index of the input exactly once, and what \<open>parallel\<close> settles with is
  \<open>parallel_outcome\<close>, which lists the items' values (or truthy failures) in input
  order and does not depend on the schedule.
\<close>

theorem parallel_every_item_once_in_input_order:
  assumes "int (length array) \<le> limit"
  shows "distinct (snd (parallel limit array func sched)) \<and>
         set (snd (parallel limit array func sched)) = {0..<length array} \<and>
         fst (parallel limit array func sched) = parallel_outcome array func"
proof -
  have "0 \<le> limit" using assms by linarith
  then show ?thesis by (simp add: parallel_run)
qed

theorem parallel_every_item_once_in_input_order_witness:
  "distinct (snd (parallel 3 [5, 6, 7 :: int] (\<lambda>x. Resolves (JNum (x * x))) [2, 0])) \<and>
   set (snd (parallel 3 [5, 6, 7 :: int] (\<lambda>x. Resolves (JNum (x * x))) [2, 0])) = {0..<3} \<and>
   fst (parallel 3 [5, 6, 7 :: int] (\<lambda>x. Resolves (JNum (x * x))) [2, 0]) =
     Returned [JNum 25, JNum 36, JNum 49]"
  using parallel_every_item_once_in_input_order
    [of "[5, 6, 7 :: int]" 3 "\<lambda>x. Resolves (JNum (x * x))" "[2, 0]"]
  by (simp add: parallel_outcome_def truthy_failures_def settled_values_def numeral_3_eq_3)

section \<open>Proofs: defer\<close>

lemma run_callbacks_continue:
  "\<not> rethrows err cb \<Longrightarrow>
   run_callbacks err (cb # rest) k called = run_callbacks err rest (Suc k) (called @ [k])"
  by (cases "tryit (fn cb) err") (auto simp: rethrows_def Let_def)

lemma run_callbacks_stop:
  "rethrows err cb \<Longrightarrow>
   run_callbacks err (cb # rest) k called = (Some (fst (tryit (fn cb) err)), called @ [k])"
  by (cases "tryit (fn cb) err") (auto simp: rethrows_def Let_def)

lemma run_callbacks_all:
  assumes "\<forall>cb\<in>set cbs. \<not> rethrows err cb"
  shows "run_callbacks err cbs k called = (None, called @ [k..<k + length cbs])"
  using assms
proof (induction cbs arbitrary: k called)
  case Nil
  then show ?case by simp
next
  case (Cons cb cbs)
  have u: "[k..<k + length (cb # cbs)] = k # [Suc k..<Suc k + length cbs]"
    using upt_conv_Cons [of k "k + length (cb # cbs)"] by (simp del: upt_Suc)
  have "run_callbacks err cbs (Suc k) (called @ [k]) =
        (None, (called @ [k]) @ [Suc k..<Suc k + length cbs])"
    using Cons.prems by (intro Cons.IH) simp
  then show ?case
    using Cons.prems unfolding u by (simp del: run_callbacks.simps add: run_callbacks_continue)
qed

lemma run_callbacks_first_rethrow:
  assumes "\<forall>cb\<in>set pre. \<not> rethrows err cb" "rethrows err cb"
  shows "run_callbacks err (pre @ cb # post) k called =
         (Some (fst (tryit (fn cb) err)), called @ [k..<k + length pre + 1])"
  using assms
proof (induction pre arbitrary: k called)
  case Nil
  then show ?case by (simp del: run_callbacks.simps add: run_callbacks_stop)
next
  case (Cons c pre)
  have u: "[k..<k + length (c # pre) + 1] = k # [Suc k..<Suc k + length pre + 1]"
    using upt_conv_Cons [of k "k + length (c # pre) + 1"] by (simp del: upt_Suc)
  have "run_callbacks err (pre @ cb # post) (Suc k) (called @ [k]) =
        (Some (fst (tryit (fn cb) err)), (called @ [k]) @ [Suc k..<Suc k + length pre + 1])"
    using Cons.prems by (intro Cons.IH) simp_all
  then show ?case
    using Cons.prems unfolding u by (simp del: run_callbacks.simps add: run_callbacks_continue)
qed

lemma defer_async_run_callbacks:
  assumes "func register [] = (out, callbacks)"
  shows "defer_async func =
         (case run_callbacks (fst (settle out)) callbacks 0 [] of
            (Some rethrown, called) \<Rightarrow> (Raised (Thrown rethrown), called)
          | (None, called) \<Rightarrow>
              (if truthy (fst (settle out)) then Raised (Thrown (fst (settle out)))
               else Returned (snd (settle out)), called))"
  using assms by (auto simp: defer_async_def case_prod_unfold Let_def split: option.splits)

lemma split_at_index:
  assumes "k < length xs"
  shows "xs = take k xs @ xs ! k # drop (Suc k) xs"
  using assms by (simp add: id_take_nth_drop)

lemma run_callbacks_index:
  assumes "k < length cbs" "rethrows err (cbs ! k)" "\<forall>i<k. \<not> rethrows err (cbs ! i)"
  shows "run_callbacks err cbs 0 [] = (Some (fst (tryit (fn (cbs ! k)) err)), [0..<Suc k])"
proof -
  have pre: "\<forall>cb\<in>set (take k cbs). \<not> rethrows err cb"
    using assms(1,3) by (auto simp: in_set_conv_nth)
  have "run_callbacks err (take k cbs @ cbs ! k # drop (Suc k) cbs) 0 [] =
        (Some (fst (tryit (fn (cbs ! k)) err)), [] @ [0..<0 + length (take k cbs) + 1])"
    using pre assms(2) by (rule run_callbacks_first_rethrow)
  then show ?thesis
    using assms(1) split_at_index [OF assms(1)] by (simp add: min_def)
qed

text \<open>
  C2, as the code has it. The callbacks the body registered are called in
  registration order, each at most once, after the body has settled. When no
  callback rethrows (none that was registered with \<^verbatim>\<open>rethrow: true\<close> fails with a truthy
  value) every callback is called, whichever of them failed, and \<open>defer\<close> then raises
  the body's error if that is truthy and returns the body's response otherwise.
  When some callback rethrows, the calls stop with the first one that does: \<open>defer\<close>
  raises the value that callback failed with, and the callbacks registered after it
  are not called.
\<close>

theorem defer_callbacks_run_until_first_rethrow:
  assumes "func register [] = (out, callbacks)"
  shows "((\<forall>cb\<in>set callbacks. \<not> rethrows (fst (settle out)) cb) \<longrightarrow>
            defer_async func =
              (if truthy (fst (settle out)) then Raised (Thrown (fst (settle out)))
               else Returned (snd (settle out)),
               [0..<length callbacks])) \<and>
         (\<forall>k<length callbacks.
            rethrows (fst (settle out)) (callbacks ! k) \<and>
            (\<forall>i<k. \<not> rethrows (fst (settle out)) (callbacks ! i)) \<longrightarrow>
            defer_async func =
              (Raised (Thrown (fst (tryit (fn (callbacks ! k)) (fst (settle out))))),
               [0..<Suc k]))"
proof (intro conjI impI allI)
  assume "\<forall>cb\<in>set callbacks. \<not> rethrows (fst (settle out)) cb"
  then show "defer_async func =
      (if truthy (fst (settle out)) then Raised (Thrown (fst (settle out)))
       else Returned (snd (settle out)),
       [0..<length callbacks])"
    using run_callbacks_all [of callbacks "fst (settle out)" 0 "[]"]
    by (simp add: defer_async_run_callbacks [of func out callbacks, OF assms])
next
  fix k
  assume "k < length callbacks"
    and "rethrows (fst (settle out)) (callbacks ! k) \<and>
         (\<forall>i<k. \<not> rethrows (fst (settle out)) (callbacks ! i))"
  then show "defer_async func =
      (Raised (Thrown (fst (tryit (fn (callbacks ! k)) (fst (settle out))))), [0..<Suc k])"
    using run_callbacks_index [of k callbacks "fst (settle out)"]
    by (simp add: defer_async_run_callbacks [of func out callbacks, OF assms])
qed

theorem defer_callbacks_run_until_first_rethrow_witness:
  "defer_async (\<lambda>reg cbs. (Rejects (JStr ''body''),
          reg (\<lambda>e. Resolves Undefined) None
            (reg (\<lambda>e. Rejects Null) (Some \<lparr>rethrow_option = Some True\<rparr>)
              (reg (\<lambda>e. Rejects (JStr ''A'')) None cbs)))) =
     (Raised (Thrown (JStr ''body'')), [0, 1, 2]) \<and>
   defer_async (\<lambda>reg cbs. (Resolves (JNum 1),
          reg (\<lambda>e. Resolves Undefined) None
            (reg (\<lambda>e. Rejects (JStr ''B'')) (Some \<lparr>rethrow_option = Some True\<rparr>)
              (reg (\<lambda>e. Rejects (JStr ''A'')) None cbs)))) =
     (Raised (Thrown (JStr ''B'')), [0, 1])"
  using defer_callbacks_run_until_first_rethrow
    [of "\<lambda>reg cbs. (Rejects (JStr ''body''),
          reg (\<lambda>e. Resolves Undefined) None
            (reg (\<lambda>e. Rejects Null) (Some \<lparr>rethrow_option = Some True\<rparr>)
              (reg (\<lambda>e. Rejects (JStr ''A'')) None cbs)))"
        "Rejects (JStr ''body'')"
        "[\<lparr>fn = \<lambda>e. Rejects (JStr ''A''), rethrow = False\<rparr>,
          \<lparr>fn = \<lambda>e. Rejects Null, rethrow = True\<rparr>,
          \<lparr>fn = \<lambda>e. Resolves Undefined, rethrow = False\<rparr>]", THEN conjunct1]
    defer_callbacks_run_until_first_rethrow
    [of "\<lambda>reg cbs. (Resolves (JNum 1),
          reg (\<lambda>e. Resolves Undefined) None
            (reg (\<lambda>e. Rejects (JStr ''B'')) (Some \<lparr>rethrow_option = Some True\<rparr>)
              (reg (\<lambda>e. Rejects (JStr ''A'')) None cbs)))"
        "Resolves (JNum 1)"
        "[\<lparr>fn = \<lambda>e. Rejects (JStr ''A''), rethrow = False\<rparr>,
          \<lparr>fn = \<lambda>e. Rejects (JStr ''B''), rethrow = True\<rparr>,
          \<lparr>fn = \<lambda>e. Resolves Undefined, rethrow = False\<rparr>]", THEN conjunct2, rule_format, of 1]
  by (simp add: register_def rethrows_def tryit_def settle_def upt_rec)

text \<open>
  C2 as stated fails: the first callback, registered with \<^verbatim>\<open>rethrow: true\<close>, fails,
  \<open>defer\<close> raises its error and the second callback is never called.
\<close>

theorem defer_rethrow_skips_later_callbacks:
  "defer_async (\<lambda>reg cbs. (Resolves (JNum 1),
          reg (\<lambda>e. Resolves Undefined) None
            (reg (\<lambda>e. Rejects (JStr ''A'')) (Some \<lparr>rethrow_option = Some True\<rparr>) cbs))) =
   (Raised (Thrown (JStr ''A'')), [0])"
  by (simp add: defer_async_def register_def tryit_def settle_def)

text \<open>
  C8, as the code has it. When the body fails with \<open>e\<close> and \<open>B\<close> is the first registered
  callback, in registration order, that was registered with \<^verbatim>\<open>rethrow: true\<close> and fails
  with a truthy value (\<open>B\<close> fails with \<open>eB\<close>, and no callback registered before \<open>B\<close> is
  both flagged \<^verbatim>\<open>rethrow\<close> and failing with a truthy value), \<open>defer\<close> raises \<open>eB\<close>, not
  \<open>e\<close>, and \<open>B\<close> is the last callback called.
\<close>

theorem defer_first_truthy_rethrow_overrides_body_failure:
  assumes "func register [] = (Rejects e, callbacks)"
      and "k < length callbacks"
      and "rethrow (callbacks ! k)"
      and "fn (callbacks ! k) e = Rejects eB"
      and "truthy eB"
      and "\<forall>i<k. \<not> (rethrow (callbacks ! i) \<and> truthy (fst (tryit (fn (callbacks ! i)) e)))"
  shows "defer_async func = (Raised (Thrown eB), [0..<Suc k])"
proof -
  have r: "rethrows e (callbacks ! k)"
    using assms(3-5) by (simp add: rethrows_def tryit_def settle_def)
  have "\<forall>i<k. \<not> rethrows e (callbacks ! i)"
    using assms(6) by (simp add: rethrows_def)
  with assms(2) r have "run_callbacks e callbacks 0 [] =
      (Some (fst (tryit (fn (callbacks ! k)) e)), [0..<Suc k])"
    by (rule run_callbacks_index)
  then show ?thesis
    using assms(4)
    by (simp add: defer_async_run_callbacks [of func "Rejects e" callbacks, OF assms(1)]
          settle_def tryit_def)
qed

theorem defer_first_truthy_rethrow_overrides_body_failure_witness:
  "defer_async (\<lambda>reg cbs. (Rejects (JStr ''body''),
          reg (\<lambda>e. Rejects (JStr ''C'')) (Some \<lparr>rethrow_option = Some True\<rparr>)
            (reg (\<lambda>e. Rejects (JStr ''B'')) (Some \<lparr>rethrow_option = Some True\<rparr>)
              (reg (\<lambda>e. Rejects (JStr ''A'')) None cbs)))) =
   (Raised (Thrown (JStr ''B'')), [0, 1])"
proof -
  let ?body = "\<lambda>reg cbs. (Rejects (JStr ''body''),
          reg (\<lambda>e. Rejects (JStr ''C'')) (Some \<lparr>rethrow_option = Some True\<rparr>)
            (reg (\<lambda>e. Rejects (JStr ''B'')) (Some \<lparr>rethrow_option = Some True\<rparr>)
              (reg (\<lambda>e. Rejects (JStr ''A'')) None cbs)))"
  let ?cbs = "[\<lparr>fn = \<lambda>e. Rejects (JStr ''A''), rethrow = False\<rparr>,
          \<lparr>fn = \<lambda>e. Rejects (JStr ''B''), rethrow = True\<rparr>,
          \<lparr>fn = \<lambda>e. Rejects (JStr ''C''), rethrow = True\<rparr>]"
  have h1: "?body register [] = (Rejects (JStr ''body''), ?cbs)"
    by (simp add: register_def)
  have h2: "1 < length ?cbs" by simp
  have h3: "rethrow (?cbs ! 1)" by simp
  have h4: "fn (?cbs ! 1) (JStr ''body'') = Rejects (JStr ''B'')" by simp
  have h5: "truthy (JStr ''B'')" by simp
  have h6: "\<forall>i<1. \<not> (rethrow (?cbs ! i) \<and> truthy (fst (tryit (fn (?cbs ! i)) (JStr ''body''))))"
    by simp
  from defer_first_truthy_rethrow_overrides_body_failure [of ?body "JStr ''body''" ?cbs 1 "JStr ''B''", OF h1 h2 h3 h4 h5 h6]
  show ?thesis by (simp add: upt_rec)
qed

text \<open>
  C8 as stated fails in two ways. A callback registered with \<^verbatim>\<open>rethrow: true\<close> that
  fails with \<^verbatim>\<open>undefined\<close> does not pass the test \<^verbatim>\<open>if (rethrown && rethrow)\<close>, and the body's
  error is raised. And of two callbacks \<open>A\<close> and \<open>B\<close>, both registered with
  \<^verbatim>\<open>rethrow: true\<close> and both failing, \<open>defer\<close> raises the error of \<open>A\<close>: \<open>B\<close> is never called
  and its error is not raised.
\<close>

theorem defer_rethrow_error_not_raised:
  "defer_async (\<lambda>reg cbs. (Rejects (JStr ''body''),
          reg (\<lambda>e. Rejects Undefined) (Some \<lparr>rethrow_option = Some True\<rparr>) cbs)) =
     (Raised (Thrown (JStr ''body'')), [0]) \<and>
   defer_async (\<lambda>reg cbs. (Rejects (JStr ''body''),
          reg (\<lambda>e. Rejects (JStr ''B'')) (Some \<lparr>rethrow_option = Some True\<rparr>)
            (reg (\<lambda>e. Rejects (JStr ''A'')) (Some \<lparr>rethrow_option = Some True\<rparr>) cbs))) =
     (Raised (Thrown (JStr ''A'')), [0])"
  by (simp add: defer_async_def register_def tryit_def settle_def)

section \<open>Proofs: all\<close>

lemma update_fresh: "k \<notin> fst ` set al \<Longrightarrow> AList.update k v al = al @ [(k, v)]"
  by (induction al) auto

lemma foldl_update_distinct:
  assumes "distinct (map fst kvs)" "fst ` set kvs \<inter> fst ` set acc = {}"
  shows "foldl (\<lambda>acc kv. AList.update (fst kv) (snd kv) acc) acc kvs = acc @ kvs"
  using assms
proof (induction kvs arbitrary: acc)
  case Nil
  then show ?case by simp
next
  case (Cons kv kvs)
  have fresh: "fst kv \<notin> fst ` set acc" using Cons.prems(2) by auto
  have "foldl (\<lambda>acc kv. AList.update (fst kv) (snd kv) acc) (acc @ [kv]) kvs = (acc @ [kv]) @ kvs"
    using Cons.prems by (intro Cons.IH) auto
  then show ?case using fresh by (simp add: update_fresh [of "fst kv" acc "snd kv"])
qed

lemma truthy_failures_Cons:
  "truthy_failures (out # outs) =
   (case out of Rejects e \<Rightarrow> if truthy e then e # truthy_failures outs else truthy_failures outs
    | Resolves v \<Rightarrow> truthy_failures outs)"
  by (simp add: truthy_failures_def split: outcome.splits)

lemma all_array_exceptions:
  "map exc (filter (\<lambda>r. truthy (exc r))
     (map (\<lambda>(key', v). case v of Resolves r \<Rightarrow> \<lparr>res = r, exc = Null, key = key'\<rparr>
                          | Rejects e \<Rightarrow> \<lparr>res = Null, exc = e, key = key'\<rparr>) entries)) =
   truthy_failures (map snd entries)"
  by (induction entries) (auto simp: truthy_failures_Cons truthy_failures_def split: outcome.splits)

lemma all_array_results:
  "map res
     (map (\<lambda>(key', v). case v of Resolves r \<Rightarrow> \<lparr>res = r, exc = Null, key = key'\<rparr>
                          | Rejects e \<Rightarrow> \<lparr>res = Null, exc = e, key = key'\<rparr>) entries) =
   settled_or_null (map snd entries)"
  by (induction entries) (auto simp: settled_or_null_def split: outcome.splits)

lemma all_async_array:
  "all_async (PromiseArray ps) =
   (if truthy_failures ps = [] then Returned (ValueArray (settled_or_null ps))
    else Raised (AggregateError (truthy_failures ps)))"
proof -
  define results' where "results' =
     map (\<lambda>(key', v). case v of Resolves r \<Rightarrow> \<lparr>res = r, exc = Null, key = key'\<rparr>
                          | Rejects e \<Rightarrow> \<lparr>res = Null, exc = e, key = key'\<rparr>)
       (map (\<lambda>p. (None :: string option, p)) ps)"
  have e: "map exc (filter (\<lambda>r. truthy (exc r)) results') = truthy_failures ps"
    unfolding results'_def all_array_exceptions by (simp add: comp_def)
  have r: "map res results' = settled_or_null ps"
    unfolding results'_def all_array_results by (simp add: comp_def)
  have n: "filter (\<lambda>r. truthy (exc r)) results' = [] \<longleftrightarrow> truthy_failures ps = []"
    using e by (metis map_is_Nil_conv)
  have "all_async (PromiseArray ps) =
        (if length (filter (\<lambda>r. truthy (exc r)) results') > 0
         then Raised (AggregateError (map exc (filter (\<lambda>r. truthy (exc r)) results')))
         else Returned (ValueArray (map res results')))"
    unfolding all_async_def Let_def results'_def by (simp only: promises.case)
  then show ?thesis using e r n by simp
qed

lemma all_record_fold:
  assumes "distinct (map fst obj)"
  shows "foldl (\<lambda>acc item. AList.update (case key item of Some k \<Rightarrow> k | None \<Rightarrow> ''null'') (res item) acc) []
           (map (\<lambda>(key', v). case v of Resolves r \<Rightarrow> \<lparr>res = r, exc = Null, key = key'\<rparr>
                                | Rejects e \<Rightarrow> \<lparr>res = Null, exc = e, key = key'\<rparr>)
              (map (\<lambda>(k, p). (Some k, p)) obj)) =
         zip (map fst obj) (settled_or_null (map snd obj))"
proof -
  let ?kvs = "zip (map fst obj) (settled_or_null (map snd obj))"
  have kv: "map (\<lambda>item. (case key item of Some k \<Rightarrow> k | None \<Rightarrow> ''null'', res item))
              (map (\<lambda>(key', v). case v of Resolves r \<Rightarrow> \<lparr>res = r, exc = Null, key = key'\<rparr>
                                | Rejects e \<Rightarrow> \<lparr>res = Null, exc = e, key = key'\<rparr>)
                (map (\<lambda>(k, p). (Some k, p)) obj)) = ?kvs"
    by (induction obj) (auto simp: settled_or_null_def split: outcome.splits)
  have "foldl (\<lambda>acc item. AList.update (case key item of Some k \<Rightarrow> k | None \<Rightarrow> ''null'') (res item) acc) [] xs =
        foldl (\<lambda>acc kv. AList.update (fst kv) (snd kv) acc) []
          (map (\<lambda>item. (case key item of Some k \<Rightarrow> k | None \<Rightarrow> ''null'', res item)) xs)" for xs :: "settled list"
    by (simp add: foldl_map)
  moreover have "foldl (\<lambda>acc kv. AList.update (fst kv) (snd kv) acc) [] ?kvs = [] @ ?kvs"
    using assms by (intro foldl_update_distinct) (simp_all add: settled_or_null_def)
  ultimately show ?thesis using kv by simp
qed

lemma all_async_record:
  assumes "distinct (map fst obj)"
  shows "all_async (PromiseRecord obj) =
   (if truthy_failures (map snd obj) = []
    then Returned (ValueRecord (zip (map fst obj) (settled_or_null (map snd obj))))
    else Raised (AggregateError (truthy_failures (map snd obj))))"
proof -
  define results' where "results' =
     map (\<lambda>(key', v). case v of Resolves r \<Rightarrow> \<lparr>res = r, exc = Null, key = key'\<rparr>
                          | Rejects e \<Rightarrow> \<lparr>res = Null, exc = e, key = key'\<rparr>)
       (map (\<lambda>(k, p). (Some k, p)) obj)"
  have e: "map exc (filter (\<lambda>r. truthy (exc r)) results') = truthy_failures (map snd obj)"
    unfolding results'_def all_array_exceptions by (simp add: comp_def case_prod_unfold)
  have n: "filter (\<lambda>r. truthy (exc r)) results' = [] \<longleftrightarrow> truthy_failures (map snd obj) = []"
    using e by (metis map_is_Nil_conv)
  have f: "foldl (\<lambda>acc item. AList.update (case key item of Some k \<Rightarrow> k | None \<Rightarrow> ''null'') (res item) acc) []
             results' = zip (map fst obj) (settled_or_null (map snd obj))"
    unfolding results'_def using assms by (rule all_record_fold)
  have "all_async (PromiseRecord obj) =
        (if length (filter (\<lambda>r. truthy (exc r)) results') > 0
         then Raised (AggregateError (map exc (filter (\<lambda>r. truthy (exc r)) results')))
         else Returned (ValueRecord
           (foldl (\<lambda>acc item. AList.update (case key item of Some k \<Rightarrow> k | None \<Rightarrow> ''null'') (res item) acc) []
             results')))"
    unfolding all_async_def Let_def results'_def by (simp only: promises.case)
  then show ?thesis using e n f by simp
qed

text \<open>
  C9, as the code has it. For an array of operations and for an object of
  operations (its keys distinct): when one or more operations fail with a truthy
  value, \<open>all\<close> raises an \<^verbatim>\<open>AggregateError\<close> whose \<^verbatim>\<open>errors\<close> are those values in the order
  of the input; a failure with a falsy value is not among them. Otherwise it returns
  a container of the shape of the input, an array in the original order or an
  object with the same keys, that holds the resolved value of each operation, and
  \<^verbatim>\<open>null\<close> for an operation that failed with a falsy value.
\<close>

theorem all_async_aggregates_truthy_failures:
  "all_async (PromiseArray ps) =
     (if truthy_failures ps = [] then Returned (ValueArray (settled_or_null ps))
      else Raised (AggregateError (truthy_failures ps))) \<and>
   (distinct (map fst obj) \<longrightarrow>
    all_async (PromiseRecord obj) =
     (if truthy_failures (map snd obj) = []
      then Returned (ValueRecord (zip (map fst obj) (settled_or_null (map snd obj))))
      else Raised (AggregateError (truthy_failures (map snd obj)))))"
  by (simp add: all_async_array all_async_record)

theorem all_async_aggregates_truthy_failures_witness:
  "all_async (PromiseArray [Resolves (JNum 1), Rejects (JStr ''x''), Rejects (JStr ''y'')]) =
     Raised (AggregateError [JStr ''x'', JStr ''y'']) \<and>
   all_async (PromiseRecord [(''a'', Resolves (JNum 1)), (''b'', Resolves (JNum 2))]) =
     Returned (ValueRecord [(''a'', JNum 1), (''b'', JNum 2)]) \<and>
   all_async (PromiseRecord [(''a'', Resolves (JNum 1)), (''b'', Rejects (JStr ''no''))]) =
     Raised (AggregateError [JStr ''no''])"
  using all_async_aggregates_truthy_failures
          [of "[Resolves (JNum 1), Rejects (JStr ''x''), Rejects (JStr ''y'')]"
              "[(''a'', Resolves (JNum 1)), (''b'', Resolves (JNum 2))]"]
        all_async_aggregates_truthy_failures
          [of "[]" "[(''a'', Resolves (JNum 1)), (''b'', Rejects (JStr ''no''))]"]
  by (simp add: truthy_failures_def settled_or_null_def)

text \<open>
  C9 as stated fails when an operation fails with a falsy value: one operation of
  the array rejects with \<^verbatim>\<open>undefined\<close> and \<open>all\<close> returns an array with \<^verbatim>\<open>null\<close> in its
  place instead of raising.
\<close>

theorem all_async_falsy_failure_not_reported:
  "all_async (PromiseArray [Rejects Undefined, Resolves (JNum 1)]) =
   Returned (ValueArray [Null, JNum 1])"
  by (simp add: all_async_def)

end
